theory Spec2Isabelle
  imports Complex_Main "HOL-Library.Word"
begin

unbundle bit_operations_syntax

section \<open>covmed: coverage and insert-size estimation (src/covmed/main.go)\<close>

text \<open>
  A shallow embedding of package \<open>covmed\<close>. Go's \<open>int\<close> and \<open>uint64\<close> are 64-bit
  words wherever the program does arithmetic on values of arbitrary magnitude (the
  region reader, the per-reference totals). Slice lengths, the sample cap \<open>n\<close> and the
  coordinates of an alignment record (32-bit fields of the container format, widened to
  \<open>int\<close>) are mathematical integers: no operation of the program on them leaves the
  64-bit range.
\<close>

subsection \<open>Failures\<close>

text \<open>
  The program has no error returns: every failure is a panic. \<open>pcheck e\<close> panics with
  the error value it is given; an out-of-range slice index panics in the runtime.
\<close>

datatype go_error =
    NumError string  \<comment> \<open>\<open>strconv.Atoi\<close> rejected this text\<close>
  | ReadFailure      \<comment> \<open>\<open>br.Read\<close> returned an error other than \<open>io.EOF\<close>\<close>
  | OpenFailure string  \<comment> \<open>\<open>xopen.Ropen\<close> could not open this path\<close>

datatype panic =
    RuntimeIndexOutOfRange int nat  \<comment> \<open>runtime error: index out of range [i] with length l\<close>
  | Pcheck go_error                 \<comment> \<open>\<open>panic(e)\<close> raised by \<open>pcheck\<close>\<close>

text \<open>Go's integer division truncates towards zero.\<close>

definition go_quot :: "int \<Rightarrow> int \<Rightarrow> int" where
  "go_quot a b = sgn a * sgn b * (\<bar>a\<bar> div \<bar>b\<bar>)"

text \<open>Indexing a slice: a runtime panic outside \<open>0 \<le> i < len\<close>.\<close>

definition index :: "'a list \<Rightarrow> int \<Rightarrow> panic + 'a" where
  "index xs i =
     (if 0 \<le> i \<and> i < int (length xs) then Inr (xs ! nat i)
      else Inl (RuntimeIndexOutOfRange i (length xs)))"

subsection \<open>Alignment records (package sam of the external decoder)\<close>

text \<open>
  The flag bits of \<open>sam.Flags\<close> (a \<open>uint16\<close>) that the program names, with the values
  the alignment format gives them.
\<close>

type_synonym Flags = "16 word"

definition ProperPair :: Flags where "ProperPair = 2"
definition Unmapped :: Flags where "Unmapped = 4"
definition Secondary :: Flags where "Secondary = 256"
definition QCFail :: Flags where "QCFail = 512"
definition Supplementary :: Flags where "Supplementary = 2048"

datatype CigarOpType =
    CigarMatch | CigarInsertion | CigarDeletion | CigarSkipped | CigarSoftClipped
  | CigarHardClipped | CigarPadded | CigarEqual | CigarMismatch | CigarBack

text \<open>A cigar operation: its kind (\<open>Type()\<close>) and its length.\<close>

type_synonym CigarOp = "CigarOpType \<times> nat"

text \<open>
  Modelled from the spec: the decoder's \<open>Cigar.Lengths\<close>, whose second result is the
  query-consumed length, "the sum of block lengths whose operation kind consumes the
  read sequence". The kinds that consume the read are match, insertion, soft clip,
  equal and mismatch.
\<close>

fun consumes_query :: "CigarOpType \<Rightarrow> bool" where
  "consumes_query CigarMatch = True"
| "consumes_query CigarInsertion = True"
| "consumes_query CigarSoftClipped = True"
| "consumes_query CigarEqual = True"
| "consumes_query CigarMismatch = True"
| "consumes_query _ = False"

fun read_length :: "CigarOp list \<Rightarrow> int" where
  "read_length [] = 0"
| "read_length ((t, l) # c) = (if consumes_query t then int l else 0) + read_length c"

text \<open>
  The fields of \<open>sam.Record\<close> the program reads. \<open>End\<close> is the value of the decoder's
  \<open>rec.End()\<close>, the alignment end position, taken as the decoder supplies it.
\<close>

record Record =
  Flags :: Flags
  Pos :: int
  MatePos :: int
  TempLen :: int
  Cigar :: "CigarOp list"
  End :: int

subsection \<open>The sampling pass of BamInsertSizes\<close>

text \<open>The three slices \<open>sizes\<close>, \<open>insertSizes\<close> and \<open>templateLengths\<close>.\<close>

record samples =
  sizes :: "int list"
  insertSizes :: "int list"
  templateLengths :: "int list"

definition no_samples :: samples where
  "no_samples = \<lparr>sizes = [], insertSizes = [], templateLengths = []\<rparr>"

text \<open>
  \<open>rec.Flags&(sam.Secondary|sam.Supplementary|sam.Unmapped|sam.QCFail) != 0\<close>
\<close>

definition filtered :: "Record \<Rightarrow> bool" where
  "filtered r \<longleftrightarrow> Flags r AND (Secondary OR Supplementary OR Unmapped OR QCFail) \<noteq> 0"

text \<open>
  \<open>rec.Pos < rec.MatePos && rec.Flags&sam.ProperPair == sam.ProperPair &&
  len(rec.Cigar) == 1 && rec.Cigar[0].Type() == sam.CigarMatch\<close>
\<close>

definition well_behaved :: "Record \<Rightarrow> bool" where
  "well_behaved r \<longleftrightarrow>
     Pos r < MatePos r \<and> Flags r AND ProperPair = ProperPair \<and>
     length (Cigar r) = 1 \<and> fst (hd (Cigar r)) = CigarMatch"

text \<open>The body of the loop for one record that \<open>br.Read\<close> returned.\<close>

definition visit :: "int \<Rightarrow> samples \<Rightarrow> Record \<Rightarrow> samples" where
  "visit n s r =
     (if filtered r then s
      else
        let s1 = (if int (length (sizes s)) < n
                  then s\<lparr>sizes := sizes s @ [read_length (Cigar r)]\<rparr> else s)
        in if well_behaved r
           then s1\<lparr>insertSizes := insertSizes s1 @ [MatePos r - End r],
                   templateLengths := templateLengths s1 @ [TempLen r]\<rparr>
           else s1)"

text \<open>
  The record source: the results of the successive calls of \<open>br.Read\<close>, each a record or
  an error; after the last one \<open>br.Read\<close> returns \<open>io.EOF\<close>.
\<close>

datatype read_result = Rec Record | Err

text \<open>
  \<open>for len(insertSizes) < n { rec, err := br.Read(); if err == io.EOF { break };
  pcheck(err); ... }\<close>. The loop returns the slices and what is left of the source.
  The slices are made empty with capacity \<open>cli.N\<close>; the capacity has no effect on their
  contents, and the pass starts from three empty lists.
\<close>

fun sample_loop :: "int \<Rightarrow> samples \<Rightarrow> read_result list \<Rightarrow> panic + samples \<times> read_result list" where
  "sample_loop n s [] = Inr (s, [])"
| "sample_loop n s (x # br) =
     (if int (length (insertSizes s)) < n
      then (case x of
              Err \<Rightarrow> Inl (Pcheck ReadFailure)
            | Rec r \<Rightarrow> sample_loop n (visit n s r) br)
      else Inr (s, x # br))"

subsection \<open>The statistics of BamInsertSizes\<close>

text \<open>
  \<open>sort.Ints(sizes); s.ReadLengthMedian = float64(sizes[(len(sizes)-1)/2]) - 1\<close>.
  The conversion to \<open>float64\<close> and the subtraction are exact on read lengths (they are
  far below \<open>2^53\<close>), so the median is the real number of the same value.
\<close>

definition median :: "int list \<Rightarrow> panic + real" where
  "median szs =
     (let sorted_sizes = sort szs in
      case index sorted_sizes (go_quot (int (length sorted_sizes) - 1) 2) of
        Inl p \<Rightarrow> Inl p
      | Inr v \<Rightarrow> Inr (real_of_int v - 1))"

text \<open>
  The result of \<open>BamInsertSizes\<close>. The means and standard deviations of \<open>Sizes\<close> are
  rounded \<open>float64\<close> sums computed by \<open>meanStd\<close> from the slices; the model keeps the
  slices they are computed from.
\<close>

record Sizes =
  ReadLengthMedian :: real
  sampled :: samples

definition BamInsertSizes :: "read_result list \<Rightarrow> int \<Rightarrow> panic + Sizes" where
  "BamInsertSizes br n =
     (case sample_loop n no_samples br of
        Inl p \<Rightarrow> Inl p
      | Inr (s, br') \<Rightarrow>
          (case median (sizes s) of
             Inl p \<Rightarrow> Inl p
           | Inr m \<Rightarrow> Inr \<lparr>ReadLengthMedian = m, sampled = s\<lparr>sizes := sort (sizes s)\<rparr>\<rparr>))"

subsection \<open>The region reader\<close>

text \<open>
  The functions of Go's standard library that \<open>readCoverage\<close> calls, on the bytes of the
  file. \<open>ReadString delim\<close> returns the bytes up to and including the first delimiter and
  what follows it; when the input ends before a delimiter it returns what it has read
  together with \<open>io.EOF\<close> (the flag).
\<close>

definition newline :: char where "newline = CHR 0x0A"

definition tab :: char where "tab = CHR 0x09"

fun ReadString :: "char \<Rightarrow> string \<Rightarrow> string \<times> bool \<times> string" where
  "ReadString delim [] = ([], True, [])"
| "ReadString delim (c # cs) =
     (if c = delim then ([c], False, cs)
      else (case ReadString delim cs of (line, eof, rest) \<Rightarrow> (c # line, eof, rest)))"

text \<open>\<open>strings.TrimSuffix\<close>: the string without the suffix when it ends with it.\<close>

definition TrimSuffix :: "string \<Rightarrow> string \<Rightarrow> string" where
  "TrimSuffix s suffix =
     (if length suffix \<le> length s \<and> drop (length s - length suffix) s = suffix
      then take (length s - length suffix) s else s)"

text \<open>
  \<open>strings.SplitN s sep n\<close> for a one-byte separator and \<open>n \<ge> 0\<close>: at most \<open>n\<close> pieces, the
  last one the unsplit remainder. \<open>Cut\<close> splits at the first separator.
\<close>

fun Cut :: "string \<Rightarrow> char \<Rightarrow> (string \<times> string) option" where
  "Cut [] sep = None"
| "Cut (c # cs) sep =
     (if c = sep then Some ([], cs)
      else (case Cut cs sep of None \<Rightarrow> None | Some (before, after) \<Rightarrow> Some (c # before, after)))"

fun SplitN :: "string \<Rightarrow> char \<Rightarrow> nat \<Rightarrow> string list" where
  "SplitN s sep 0 = []"
| "SplitN s sep (Suc k) =
     (if k = 0 then [s]
      else (case Cut s sep of None \<Rightarrow> [s] | Some (before, after) \<Rightarrow> before # SplitN after sep k))"

text \<open>
  \<open>strconv.Atoi\<close>: an optional sign and at least one decimal digit, the value within the
  range of a 64-bit \<open>int\<close>; anything else is a \<open>*NumError\<close> (syntax and range errors are
  not told apart here).
\<close>

fun digits_value :: "nat \<Rightarrow> string \<Rightarrow> nat option" where
  "digits_value acc [] = Some acc"
| "digits_value acc (c # cs) =
     (if 48 \<le> (of_char c :: nat) \<and> (of_char c :: nat) \<le> 57
      then digits_value (10 * acc + (of_char c - 48)) cs else None)"

definition Atoi :: "string \<Rightarrow> go_error + 64 word" where
  "Atoi s =
     (let neg = (s \<noteq> [] \<and> hd s = CHR ''-'');
          ds = (if s \<noteq> [] \<and> (hd s = CHR ''-'' \<or> hd s = CHR ''+'') then tl s else s)
      in if ds = [] then Inl (NumError s)
         else (case digits_value 0 ds of
                 None \<Rightarrow> Inl (NumError s)
               | Some v \<Rightarrow>
                   if neg then (if v \<le> 2 ^ 63 then Inr (- word_of_nat v) else Inl (NumError s))
                   else (if v < 2 ^ 63 then Inr (word_of_nat v) else Inl (NumError s))))"

text \<open>
  The body of the loop of \<open>readCoverage\<close> for one line: \<open>TrimSuffix\<close>, \<open>SplitN\<close> into at
  most 5 tokens, \<open>toks[1]\<close> and \<open>toks[2]\<close> parsed in this order, each index and each
  \<open>pcheck\<close> a possible panic; the result is \<open>e - s\<close>.
\<close>

definition line_span :: "string \<Rightarrow> panic + 64 word" where
  "line_span line0 =
     (let line = TrimSuffix line0 [newline];
          toks = SplitN line tab 5
      in case index toks 1 of
           Inl p \<Rightarrow> Inl p
         | Inr t1 \<Rightarrow>
             (case Atoi t1 of
                Inl err \<Rightarrow> Inl (Pcheck err)
              | Inr s \<Rightarrow>
                  (case index toks 2 of
                     Inl p \<Rightarrow> Inl p
                   | Inr t2 \<Rightarrow>
                       (case Atoi t2 of
                          Inl err \<Rightarrow> Inl (Pcheck err)
                        | Inr e \<Rightarrow> Inr (e - s)))))"

text \<open>
  \<open>for { line, err := fh.ReadString(newline); if err == io.EOF { break }; ...; cov += e - s }\<close>
  on the bytes not yet read. Errors of the reader other than \<open>io.EOF\<close> are outside the
  model: the file is a finite string.
\<close>

function readCoverage_loop :: "64 word \<Rightarrow> string \<Rightarrow> panic + 64 word" where
  "readCoverage_loop cov fh =
     (case ReadString newline fh of
        (line, eof, rest) \<Rightarrow>
          if eof then Inr cov
          else (case line_span line of
                  Inl p \<Rightarrow> Inl p
                | Inr d \<Rightarrow> readCoverage_loop (cov + d) rest))"
  by pat_completeness auto
termination
proof -
  have shorter: "(l, False, r) = ReadString c s \<Longrightarrow> length r < length s" for c s l r
    by (induction s arbitrary: l) (auto split: if_splits prod.splits)
  show ?thesis
    by (relation "measure (\<lambda>(cov, fh). length fh)") (auto dest: shorter)
qed

declare readCoverage_loop.simps [simp del]

text \<open>
  \<open>readCoverage\<close> opens the path (\<open>fs\<close> gives the content of the files that can be opened)
  and runs the loop from \<open>cov = 0\<close>.
\<close>

definition readCoverage :: "(string \<Rightarrow> string option) \<Rightarrow> string \<Rightarrow> panic + 64 word" where
  "readCoverage fs path =
     (case fs path of
        None \<Rightarrow> Inl (Pcheck (OpenFailure path))
      | Some fh \<Rightarrow> readCoverage_loop 0 fh)"

subsection \<open>The totals of Main\<close>








subsection \<open>Vocabulary of the properties\<close>

text \<open>
  A record qualifies for the insert-size and template-length slices when it passes the
  flag filter and is a well-behaved pair.
\<close>

definition qualifying :: "Record \<Rightarrow> bool" where
  "qualifying r \<longleftrightarrow> \<not> filtered r \<and> well_behaved r"

text \<open>
  The relation between the slices that the loop keeps: \<open>insertSizes\<close> is never longer
  than \<open>sizes\<close>, and \<open>sizes\<close> never exceeds the cap.
\<close>

definition in_step :: "int \<Rightarrow> samples \<Rightarrow> bool" where
  "in_step n s \<longleftrightarrow>
     length (insertSizes s) \<le> length (sizes s) \<and> int (length (sizes s)) \<le> max n 0"

text \<open>Three records for the examples: a proper pair, a clipped read, an unmapped read.\<close>

definition pair_record :: Record where
  "pair_record = \<lparr>Flags = 99, Pos = 100, MatePos = 300, TempLen = 350,
     Cigar = [(CigarMatch, 150)], End = 250\<rparr>"

definition clipped_record :: Record where
  "clipped_record = \<lparr>Flags = 99, Pos = 100, MatePos = 300, TempLen = 345,
     Cigar = [(CigarSoftClipped, 5), (CigarMatch, 145)], End = 245\<rparr>"

definition unmapped_record :: Record where
  "unmapped_record = \<lparr>Flags = 77, Pos = 100, MatePos = 300, TempLen = 0,
     Cigar = [(CigarMatch, 150)], End = 101\<rparr>"

text \<open>
  The fields of a line (all of them, split at every separator), a malformed line (fewer
  than 3 fields, or a start or end that \<open>Atoi\<close> rejects), the start and end of a line,
  and a file made of terminated lines.
\<close>

fun split_fields :: "char \<Rightarrow> string \<Rightarrow> string list" where
  "split_fields sep [] = [[]]"
| "split_fields sep (c # cs) =
     (if c = sep then [] # split_fields sep cs
      else (case split_fields sep cs of [] \<Rightarrow> [[c]] | f # fs \<Rightarrow> (c # f) # fs))"

definition malformed :: "string \<Rightarrow> bool" where
  "malformed l \<longleftrightarrow>
     length (split_fields tab l) < 3 \<or> isl (Atoi (split_fields tab l ! 1)) \<or> isl (Atoi (split_fields tab l ! 2))"

definition start_of :: "string \<Rightarrow> 64 word" where
  "start_of l = (case Atoi (split_fields tab l ! 1) of Inr v \<Rightarrow> v | Inl err \<Rightarrow> 0)"

definition end_of :: "string \<Rightarrow> 64 word" where
  "end_of l = (case Atoi (split_fields tab l ! 2) of Inr v \<Rightarrow> v | Inl err \<Rightarrow> 0)"

definition unlines :: "string list \<Rightarrow> string" where
  "unlines ls = concat (map (\<lambda>l. l @ [newline]) ls)"

text \<open>Two region lines and the file of both, for the examples.\<close>

definition region_line_a :: string where
  "region_line_a = ''chr1'' @ [tab] @ ''0'' @ [tab] @ ''100'' @ [tab] @ ''.'' @ [tab] @ ''.''"

definition region_line_b :: string where
  "region_line_b = ''chr1'' @ [tab] @ ''200'' @ [tab] @ ''250'' @ [tab] @ ''.'' @ [tab] @ ''.''"

definition example_regions :: string where
  "example_regions =
     ''chr1'' @ [tab] @ ''0'' @ [tab] @ ''100'' @ [tab] @ ''.'' @ [tab] @ ''.'' @ [newline] @
     ''chr1'' @ [tab] @ ''200'' @ [tab] @ ''250'' @ [tab] @ ''.'' @ [tab] @ ''.'' @ [newline]"





section \<open>Properties of the sampling pass\<close>

subsection \<open>One record\<close>

lemma flag_mask_iff:
  "(f AND (Secondary OR Supplementary OR Unmapped OR QCFail) \<noteq> 0) \<longleftrightarrow>
   (f AND Secondary \<noteq> 0 \<or> f AND Supplementary \<noteq> 0 \<or> f AND Unmapped \<noteq> 0 \<or> f AND QCFail \<noteq> 0)"
  for f :: Flags
  by (simp add: bit.conj_disj_distrib or_eq_0_iff)

lemma visit_filtered: "filtered r \<Longrightarrow> visit n s r = s"
  by (simp add: visit_def)

lemma length_insertSizes_visit:
  "length (insertSizes (visit n s r)) = length (insertSizes s) + (if qualifying r then 1 else 0)"
  by (simp add: visit_def qualifying_def Let_def)

lemma length_templateLengths_visit:
  "length (templateLengths (visit n s r)) = length (templateLengths s) + (if qualifying r then 1 else 0)"
  by (simp add: visit_def qualifying_def Let_def)

lemma length_sizes_visit:
  "length (sizes (visit n s r)) =
     length (sizes s) + (if \<not> filtered r \<and> int (length (sizes s)) < n then 1 else 0)"
  by (simp add: visit_def Let_def)

lemma in_step_visit:
  "in_step n s \<Longrightarrow> int (length (insertSizes s)) < n \<Longrightarrow> in_step n (visit n s r)"
  by (auto simp add: in_step_def length_insertSizes_visit length_sizes_visit qualifying_def)

lemma filtered_examples:
  "\<not> filtered pair_record" "\<not> filtered clipped_record" "filtered unmapped_record"
  by (simp_all add: filtered_def pair_record_def clipped_record_def unmapped_record_def
      Secondary_def Supplementary_def Unmapped_def QCFail_def)

lemma well_behaved_examples:
  "well_behaved pair_record" "\<not> well_behaved clipped_record"
  by (simp_all add: well_behaved_def pair_record_def clipped_record_def ProperPair_def)

subsection \<open>The whole loop\<close>

text \<open>
  A pass over a source of records only: it reads a prefix \<open>seen\<close>, each qualifying
  record of the prefix adds one insert size and one template length, each unfiltered
  one adds a read length while \<open>sizes\<close> is below the cap, and before every read the
  insert sizes were below the cap.
\<close>

lemma sample_loop_run:
  "\<exists>s' seen rest.
     sample_loop n s (map Rec rs) = Inr (s', map Rec rest) \<and> rs = seen @ rest \<and>
     length (insertSizes s') = length (insertSizes s) + length (filter qualifying seen) \<and>
     length (templateLengths s') = length (templateLengths s) + length (filter qualifying seen) \<and>
     length (sizes s') =
       min (max (length (sizes s)) (nat n)) (length (sizes s) + length (filter (\<lambda>r. \<not> filtered r) seen)) \<and>
     (rest \<noteq> [] \<longrightarrow> n \<le> int (length (insertSizes s'))) \<and>
     (\<forall>k<length seen. int (length (insertSizes s) + length (filter qualifying (take k seen))) < n)"
proof (induction rs arbitrary: s)
  case Nil
  show ?case by simp
next
  case (Cons r rs)
  show ?case
  proof (cases "int (length (insertSizes s)) < n")
    case False
    have "sample_loop n s (map Rec (r # rs)) = Inr (s, map Rec (r # rs))"
      using False by simp
    then show ?thesis using False
      by (intro exI[of _ s] exI[of _ "[]"] exI[of _ "r # rs"]) simp
  next
    case True
    obtain s' seen rest where
      run: "sample_loop n (visit n s r) (map Rec rs) = Inr (s', map Rec rest)" and
      split: "rs = seen @ rest" and
      ins: "length (insertSizes s') = length (insertSizes (visit n s r)) + length (filter qualifying seen)" and
      tls: "length (templateLengths s') = length (templateLengths (visit n s r)) + length (filter qualifying seen)" and
      szs: "length (sizes s') = min (max (length (sizes (visit n s r))) (nat n))
              (length (sizes (visit n s r)) + length (filter (\<lambda>r. \<not> filtered r) seen))" and
      stop: "rest \<noteq> [] \<longrightarrow> n \<le> int (length (insertSizes s'))" and
      early: "\<forall>k<length seen. int (length (insertSizes (visit n s r)) + length (filter qualifying (take k seen))) < n"
      using Cons.IH[of "visit n s r"] by blast
    have 1: "sample_loop n s (map Rec (r # rs)) = Inr (s', map Rec rest)"
      using True run by simp
    have 2: "r # rs = (r # seen) @ rest" using split by simp
    have 3: "length (insertSizes s') = length (insertSizes s) + length (filter qualifying (r # seen))"
      using ins by (simp add: length_insertSizes_visit)
    have 4: "length (templateLengths s') = length (templateLengths s) + length (filter qualifying (r # seen))"
      using tls by (simp add: length_templateLengths_visit)
    have 5: "length (sizes s') = min (max (length (sizes s)) (nat n))
              (length (sizes s) + length (filter (\<lambda>r. \<not> filtered r) (r # seen)))"
      using szs by (auto simp add: length_sizes_visit)
    have 6: "\<forall>k<length (r # seen). int (length (insertSizes s) + length (filter qualifying (take k (r # seen)))) < n"
    proof (intro allI impI)
      fix k assume k: "k < length (r # seen)"
      show "int (length (insertSizes s) + length (filter qualifying (take k (r # seen)))) < n"
      proof (cases k)
        case 0
        then show ?thesis using True by simp
      next
        case (Suc j)
        then have "j < length seen" using k by simp
        then have "int (length (insertSizes (visit n s r)) + length (filter qualifying (take j seen))) < n"
          using early by blast
        then show ?thesis using Suc by (simp add: length_insertSizes_visit split: if_splits)
      qed
    qed
    show ?thesis
      using 1 2 3 4 5 6 stop by blast
  qed
qed

lemma sample_loop_run_init:
  "\<exists>s seen rest.
     sample_loop n no_samples (map Rec rs) = Inr (s, map Rec rest) \<and> rs = seen @ rest \<and>
     length (insertSizes s) = length (filter qualifying seen) \<and>
     length (templateLengths s) = length (filter qualifying seen) \<and>
     length (sizes s) = min (nat n) (length (filter (\<lambda>r. \<not> filtered r) seen)) \<and>
     (rest \<noteq> [] \<longrightarrow> n \<le> int (length (insertSizes s))) \<and>
     (\<forall>k<length seen. int (length (filter qualifying (take k seen))) < n)"
  using sample_loop_run[of n no_samples rs] by (simp add: no_samples_def)

text \<open>
  The pass over \<open>pre @ post\<close> goes through the state that the pass over \<open>pre\<close> ends in:
  the states of a pass are the results of the passes over the prefixes of its source.
\<close>

lemma sample_loop_append:
  "sample_loop n s (pre @ post) =
     (case sample_loop n s pre of
        Inl p \<Rightarrow> Inl p
      | Inr (s', rest) \<Rightarrow> if rest = [] then sample_loop n s' post else Inr (s', rest @ post))"
proof (induction pre arbitrary: s)
  case Nil
  then show ?case by simp
next
  case (Cons x pre)
  then show ?case by (cases x) (simp_all)
qed

lemma in_step_sample_loop:
  "in_step n s \<Longrightarrow> sample_loop n s br = Inr (s', rest) \<Longrightarrow> in_step n s'"
proof (induction br arbitrary: s)
  case Nil
  then show ?case by simp
next
  case (Cons x br)
  then show ?case
    by (cases x) (auto split: if_splits dest: in_step_visit)
qed

lemma sample_loop_skip:
  "filtered r \<Longrightarrow>
   map_sum id fst (sample_loop n s (pre @ Rec r # post)) = map_sum id fst (sample_loop n s (pre @ post))"
proof (induction pre arbitrary: s)
  case Nil
  then show ?case by (cases post) (simp_all add: visit_filtered)
next
  case (Cons x pre)
  then show ?case by (cases x) simp_all
qed

lemma BamInsertSizes_samples:
  "BamInsertSizes br n =
     (case map_sum id fst (sample_loop n no_samples br) of
        Inl p \<Rightarrow> Inl p
      | Inr s \<Rightarrow> (case median (sizes s) of
             Inl p \<Rightarrow> Inl p
           | Inr m \<Rightarrow> Inr \<lparr>ReadLengthMedian = m, sampled = s\<lparr>sizes := sort (sizes s)\<rparr>\<rparr>))"
  by (simp add: BamInsertSizes_def split: sum.splits prod.splits)

lemma run1: "sample_loop 1 no_samples [Rec clipped_record, Rec pair_record, Rec pair_record]
   = Inr (\<lparr>sizes = [150], insertSizes = [50], templateLengths = [350]\<rparr>, [Rec pair_record])"
  by (simp add: no_samples_def visit_def filtered_examples well_behaved_examples Let_def)
    (simp add: pair_record_def clipped_record_def)

subsection \<open>The pass stops at the cap or at the end of the source\<close>

text \<open>
  C3. For every \<open>n > 0\<close> and every finite source of records, the pass reads a prefix
  \<open>seen\<close> of the source and stops exactly when \<open>insertSizes\<close> has \<open>n\<close> entries or the
  source is exhausted, whichever comes first: at the end one of the two holds, and before
  each record that was read the qualifying records read so far were fewer than \<open>n\<close>. At
  the end the length of \<open>insertSizes\<close> is \<open>min n\<close> of the number of qualifying records
  seen, and the length of \<open>sizes\<close> is \<open>min n\<close> of the number of unfiltered records seen
  (so each is at most that minimum).
\<close>

theorem sampling_pass_stops:
  assumes "0 < n"
  shows "\<exists>s seen rest.
     sample_loop n no_samples (map Rec rs) = Inr (s, map Rec rest) \<and> rs = seen @ rest \<and>
     (int (length (insertSizes s)) = n \<or> rest = []) \<and>
     (\<forall>k<length seen. int (length (filter qualifying (take k seen))) < n) \<and>
     int (length (insertSizes s)) = min n (int (length (filter qualifying seen))) \<and>
     length (templateLengths s) = length (insertSizes s) \<and>
     int (length (sizes s)) = min n (int (length (filter (\<lambda>r. \<not> filtered r) seen)))"
proof -
  obtain s seen rest where
    run: "sample_loop n no_samples (map Rec rs) = Inr (s, map Rec rest)" and
    split: "rs = seen @ rest" and
    ins: "length (insertSizes s) = length (filter qualifying seen)" and
    tls: "length (templateLengths s) = length (filter qualifying seen)" and
    szs: "length (sizes s) = min (nat n) (length (filter (\<lambda>r. \<not> filtered r) seen))" and
    stop: "rest \<noteq> [] \<longrightarrow> n \<le> int (length (insertSizes s))" and
    early: "\<forall>k<length seen. int (length (filter qualifying (take k seen))) < n"
    using sample_loop_run_init[of n rs] by blast
  have le: "int (length (filter qualifying seen)) \<le> n"
  proof (cases seen rule: rev_cases)
    case Nil
    then show ?thesis using assms by simp
  next
    case (snoc ys y)
    then have "length ys < length seen" by simp
    then have "int (length (filter qualifying (take (length ys) seen))) < n"
      using early by blast
    then show ?thesis using snoc by simp
  qed
  have a: "int (length (insertSizes s)) = n \<or> rest = []"
    using stop le ins by auto
  have b: "int (length (insertSizes s)) = min n (int (length (filter qualifying seen)))"
    using le ins by simp
  have c: "int (length (sizes s)) = min n (int (length (filter (\<lambda>r. \<not> filtered r) seen)))"
    using szs assms by auto
  show ?thesis using run split a early b c ins tls by auto
qed

theorem sampling_pass_stops_witness:
  "(0::int) < 1 \<and>
   sample_loop 1 no_samples (map Rec [clipped_record, pair_record, pair_record]) =
     Inr (\<lparr>sizes = [150], insertSizes = [50], templateLengths = [350]\<rparr>, map Rec [pair_record]) \<and>
   (\<exists>s seen rest.
     sample_loop 1 no_samples (map Rec [clipped_record, pair_record, pair_record]) = Inr (s, map Rec rest) \<and>
     [clipped_record, pair_record, pair_record] = seen @ rest \<and>
     (int (length (insertSizes s)) = 1 \<or> rest = []) \<and>
     (\<forall>k<length seen. int (length (filter qualifying (take k seen))) < 1) \<and>
     int (length (insertSizes s)) = min 1 (int (length (filter qualifying seen))) \<and>
     length (templateLengths s) = length (insertSizes s) \<and>
     int (length (sizes s)) = min 1 (int (length (filter (\<lambda>r. \<not> filtered r) seen))))"
proof -
  have h: "(0::int) < 1" by simp
  show ?thesis
    using sampling_pass_stops[OF h, of "[clipped_record, pair_record, pair_record]"] run1 by simp
qed

subsection \<open>Filtered records\<close>

text \<open>
  C4. A record whose flags have the secondary, supplementary, unmapped or qc-fail bit
  set, whatever its other flags, contributes to none of the three slices: the loop body
  leaves them as they were, and the result of \<open>BamInsertSizes\<close> is the same with and
  without the record, wherever it stands in the source.
\<close>

theorem filtered_record_in_no_buffer:
  assumes "Flags r AND Secondary \<noteq> 0 \<or> Flags r AND Supplementary \<noteq> 0 \<or>
           Flags r AND Unmapped \<noteq> 0 \<or> Flags r AND QCFail \<noteq> 0"
  shows "visit n s r = s \<and>
         BamInsertSizes (pre @ Rec r # post) n = BamInsertSizes (pre @ post) n"
proof -
  have f: "filtered r" using assms by (simp add: filtered_def flag_mask_iff)
  show ?thesis using f sample_loop_skip[OF f]
    by (simp add: visit_filtered BamInsertSizes_samples)
qed

theorem filtered_record_in_no_buffer_witness:
  "Flags unmapped_record AND Unmapped \<noteq> 0 \<and>
   visit 5 no_samples unmapped_record = no_samples \<and>
   BamInsertSizes ([Rec pair_record] @ Rec unmapped_record # [Rec clipped_record]) 5 =
   BamInsertSizes ([Rec pair_record] @ [Rec clipped_record]) 5"
proof -
  have u: "Flags unmapped_record AND Unmapped \<noteq> 0"
    by (simp add: unmapped_record_def Unmapped_def)
  then have h: "Flags unmapped_record AND Secondary \<noteq> 0 \<or>
      Flags unmapped_record AND Supplementary \<noteq> 0 \<or>
      Flags unmapped_record AND Unmapped \<noteq> 0 \<or> Flags unmapped_record AND QCFail \<noteq> 0"
    by simp
  show ?thesis
    using u filtered_record_in_no_buffer[OF h, of 5 no_samples "[Rec pair_record]" "[Rec clipped_record]"]
    by simp
qed

subsection \<open>Well-behaved pairs\<close>

text \<open>
  C5. For every unfiltered record that the loop visits, \<open>MatePos - End\<close> is appended to
  \<open>insertSizes\<close> and \<open>TempLen\<close> to \<open>templateLengths\<close> if and only if \<open>Pos < MatePos\<close>,
  the proper-pair flag is set and the cigar is exactly one match block; the two slices
  stay as they were if and only if that condition fails.
\<close>

theorem pair_appended_iff:
  assumes "\<not> filtered r"
  shows "((insertSizes (visit n s r) = insertSizes s @ [MatePos r - End r] \<and>
           templateLengths (visit n s r) = templateLengths s @ [TempLen r]) \<longleftrightarrow>
          (Pos r < MatePos r \<and> Flags r AND ProperPair = ProperPair \<and>
           (\<exists>l. Cigar r = [(CigarMatch, l)]))) \<and>
         ((insertSizes (visit n s r) = insertSizes s \<and>
           templateLengths (visit n s r) = templateLengths s) \<longleftrightarrow>
          \<not> (Pos r < MatePos r \<and> Flags r AND ProperPair = ProperPair \<and>
           (\<exists>l. Cigar r = [(CigarMatch, l)])))"
proof -
  have wb: "well_behaved r \<longleftrightarrow>
     (Pos r < MatePos r \<and> Flags r AND ProperPair = ProperPair \<and> (\<exists>l. Cigar r = [(CigarMatch, l)]))"
    by (cases "Cigar r") (auto simp add: well_behaved_def)
  show ?thesis using assms unfolding wb[symmetric]
    by (simp add: visit_def Let_def)
qed

theorem pair_appended_iff_witness:
  "\<not> filtered pair_record \<and>
   insertSizes (visit 5 no_samples pair_record) = [50] \<and>
   templateLengths (visit 5 no_samples pair_record) = [350] \<and>
   \<not> filtered clipped_record \<and>
   insertSizes (visit 5 no_samples clipped_record) = [] \<and>
   templateLengths (visit 5 no_samples clipped_record) = []"
proof -
  have p: "Pos pair_record < MatePos pair_record \<and>
      Flags pair_record AND ProperPair = ProperPair \<and> (\<exists>l. Cigar pair_record = [(CigarMatch, l)])"
    by (simp add: pair_record_def ProperPair_def)
  have c: "\<not> (Pos clipped_record < MatePos clipped_record \<and>
      Flags clipped_record AND ProperPair = ProperPair \<and> (\<exists>l. Cigar clipped_record = [(CigarMatch, l)]))"
    by (simp add: clipped_record_def)
  have v: "MatePos pair_record - End pair_record = 50" "TempLen pair_record = 350"
    by (simp_all add: pair_record_def)
  show ?thesis
    using pair_appended_iff[OF filtered_examples(1), of 5 no_samples]
      pair_appended_iff[OF filtered_examples(2), of 5 no_samples] p c v filtered_examples
    by (simp add: no_samples_def)
qed

subsection \<open>Read lengths lead insert sizes\<close>

text \<open>
  C9. Throughout the pass (after any number \<open>k\<close> of reads, that is, at the end of the
  pass over any prefix of the source) \<open>sizes\<close> is at least as long as \<open>insertSizes\<close>;
  and when \<open>insertSizes\<close> has reached the cap \<open>n > 0\<close>, \<open>sizes\<close> holds exactly \<open>n\<close>
  entries and is not empty.
\<close>

theorem read_lengths_lead_insert_sizes:
  assumes "sample_loop n no_samples (take k br) = Inr (s, rest)"
  shows "length (insertSizes s) \<le> length (sizes s) \<and>
         (0 < n \<and> int (length (insertSizes s)) = n \<longrightarrow>
            int (length (sizes s)) = n \<and> sizes s \<noteq> [])"
proof -
  have "in_step n no_samples" by (simp add: in_step_def no_samples_def)
  then have "in_step n s" using assms by (rule in_step_sample_loop)
  then show ?thesis by (auto simp add: in_step_def)
qed

theorem read_lengths_lead_insert_sizes_witness:
  "sample_loop 1 no_samples (take 3 [Rec clipped_record, Rec pair_record, Rec pair_record]) =
     Inr (\<lparr>sizes = [150], insertSizes = [50], templateLengths = [350]\<rparr>, [Rec pair_record]) \<and>
   length (insertSizes \<lparr>sizes = [150], insertSizes = [50], templateLengths = [350]\<rparr>)
     \<le> length (sizes \<lparr>sizes = [150], insertSizes = [50], templateLengths = [350]\<rparr>) \<and>
   int (length (sizes \<lparr>sizes = [150], insertSizes = [50], templateLengths = [350]\<rparr>)) = 1"
proof -
  have h: "sample_loop 1 no_samples (take 3 [Rec clipped_record, Rec pair_record, Rec pair_record]) =
     Inr (\<lparr>sizes = [150], insertSizes = [50], templateLengths = [350]\<rparr>, [Rec pair_record])"
    using run1 by simp
  show ?thesis
    using h read_lengths_lead_insert_sizes[OF h] by simp
qed

section \<open>Properties of the statistics\<close>

lemma go_quot_half: "0 \<le> a \<Longrightarrow> go_quot a 2 = a div 2"
  by (cases "a = 0") (simp_all add: go_quot_def)

lemma median_empty: "median [] = Inl (RuntimeIndexOutOfRange 0 0)"
  by (simp add: median_def index_def go_quot_def)

lemma median_eq:
  assumes "szs \<noteq> []"
  shows "median szs = Inr (real_of_int (sort szs ! ((length szs - 1) div 2)) - 1)"
proof -
  have e: "int (length szs) - 1 = int (length szs - 1)" using assms by (cases szs) simp_all
  have q: "go_quot (int (length (sort szs)) - 1) 2 = int ((length szs - 1) div 2)"
    by (simp add: e go_quot_half zdiv_int del: One_nat_def)
  have "(length szs - 1) div 2 \<le> length szs - 1" by (rule div_le_dividend)
  also have "\<dots> < length szs" using assms by (cases szs) simp_all
  finally have b: "(length szs - 1) div 2 < length (sort szs)" by simp
  show ?thesis
    unfolding median_def Let_def q using b by (simp add: index_def)
qed

text \<open>
  C6. For every non-empty read-length slice the reported median is the element at index
  \<open>(len - 1) div 2\<close> of the slice sorted ascending, minus 1, both for \<open>median\<close> itself
  and for the \<open>ReadLengthMedian\<close> that \<open>BamInsertSizes\<close> reports; the median of
  \<open>[2, 4, 6]\<close> is 3.
\<close>

theorem median_is_lower_middle_minus_one:
  "(szs \<noteq> [] \<longrightarrow>
      median szs = Inr (real_of_int (sort szs ! ((length szs - 1) div 2)) - 1)) \<and>
   (sample_loop n no_samples br = Inr (s, rest) \<and> sizes s \<noteq> [] \<longrightarrow>
      (\<exists>S. BamInsertSizes br n = Inr S \<and>
           ReadLengthMedian S = real_of_int (sort (sizes s) ! ((length (sizes s) - 1) div 2)) - 1)) \<and>
   median [2, 4, 6] = Inr 3"
proof -
  have "median [2, 4, 6] = Inr 3"
    by (simp add: median_eq)
  then show ?thesis
    by (auto simp add: median_eq BamInsertSizes_def)
qed

theorem median_is_lower_middle_minus_one_witness:
  "median [6, 2, 4, 8] = Inr 3 \<and>
   (\<exists>S. BamInsertSizes [Rec clipped_record, Rec pair_record, Rec pair_record] 1 = Inr S \<and>
        ReadLengthMedian S = 149)"
proof -
  have h: "sample_loop 1 no_samples [Rec clipped_record, Rec pair_record, Rec pair_record] =
     Inr (\<lparr>sizes = [150], insertSizes = [50], templateLengths = [350]\<rparr>, [Rec pair_record])"
    using run1 by simp
  have ne: "[6, 2, 4, 8 :: int] \<noteq> []" by simp
  show ?thesis
    using median_is_lower_middle_minus_one[of "[6, 2, 4, 8]" 1
        "[Rec clipped_record, Rec pair_record, Rec pair_record]"
        "\<lparr>sizes = [150], insertSizes = [50], templateLengths = [350]\<rparr>" "[Rec pair_record]"] h
    by simp
qed

text \<open>
  C2. When no record survives the filter the read-length slice is empty at the end of
  the pass, and the median lookup \<open>sizes[(len(sizes)-1)/2]\<close> indexes an empty slice at 0:
  \<open>BamInsertSizes\<close> ends in the runtime's index panic, on an empty source and on a source
  of filtered records alike. No "insufficient samples" condition is reported.
\<close>

theorem empty_read_lengths_panic:
  "BamInsertSizes [] 5 = Inl (RuntimeIndexOutOfRange 0 0) \<and>
   BamInsertSizes [Rec unmapped_record, Rec unmapped_record] 5 = Inl (RuntimeIndexOutOfRange 0 0)"
  by (simp add: BamInsertSizes_def no_samples_def visit_filtered filtered_examples median_empty)

section \<open>Properties of the region reader\<close>

subsection \<open>Lines and tokens\<close>



lemma ReadString_line:
  "delim \<notin> set l \<Longrightarrow> ReadString delim (l @ delim # rest) = (l @ [delim], False, rest)"
  by (induction l) auto

lemma ReadString_eof:
  "delim \<notin> set t \<Longrightarrow> ReadString delim t = (t, True, [])"
  by (induction t) auto

lemma fields_not_Nil: "split_fields sep s \<noteq> []"
  by (induction s) (auto split: list.splits)

lemma fields_Cut_None: "Cut s sep = None \<Longrightarrow> split_fields sep s = [s]"
  by (induction s) (auto split: if_splits option.splits)

lemma fields_Cut_Some: "Cut s sep = Some (a, b) \<Longrightarrow> split_fields sep s = a # split_fields sep b"
  by (induction s arbitrary: a) (auto split: if_splits option.splits)

lemma length_SplitN:
  "length (SplitN s sep (Suc k)) = min (Suc k) (length (split_fields sep s))"
proof (induction k arbitrary: s)
  case 0
  show ?case using fields_not_Nil[of sep s] by (cases "split_fields sep s") simp_all
next
  case (Suc k)
  show ?case
  proof (cases "Cut s sep")
    case None
    then show ?thesis by (simp add: fields_Cut_None)
  next
    case (Some ab)
    obtain a b where ab: "ab = (a, b)" by (cases ab)
    show ?thesis using Some ab Suc.IH[of b] by (simp add: fields_Cut_Some)
  qed
qed

lemma nth_SplitN:
  "i < k \<Longrightarrow> i < length (split_fields sep s) \<Longrightarrow> SplitN s sep (Suc k) ! i = split_fields sep s ! i"
proof (induction k arbitrary: s i)
  case 0
  then show ?case by simp
next
  case (Suc k)
  show ?case
  proof (cases "Cut s sep")
    case None
    then show ?thesis by (simp add: fields_Cut_None)
  next
    case (Some ab)
    obtain a b where ab: "ab = (a, b)" by (cases ab)
    show ?thesis
    proof (cases i)
      case 0
      then show ?thesis using Some ab by (simp add: fields_Cut_Some)
    next
      case (Suc j)
      then have "j < k" "j < length (split_fields sep b)"
        using Suc.prems Some ab by (simp_all add: fields_Cut_Some)
      then have "SplitN b sep (Suc k) ! j = split_fields sep b ! j" by (rule Suc.IH)
      then show ?thesis using Some ab Suc by (simp add: fields_Cut_Some)
    qed
  qed
qed

lemma length_SplitN_5: "length (SplitN s sep 5) = min 5 (length (split_fields sep s))"
  using length_SplitN[of s sep 4] by (simp del: SplitN.simps)

lemma nth_SplitN_5:
  "i < 4 \<Longrightarrow> i < length (split_fields sep s) \<Longrightarrow> SplitN s sep 5 ! i = split_fields sep s ! i"
  using nth_SplitN[of i 4 sep s] by (simp del: SplitN.simps)

lemma TrimSuffix_newline: "TrimSuffix (l @ [newline]) [newline] = l"
  by (simp add: TrimSuffix_def)

lemma line_span_wellformed:
  assumes "\<not> malformed l"
  shows "line_span (l @ [newline]) = Inr (end_of l - start_of l)"
proof -
  have len: "3 \<le> length (split_fields tab l)" and
    a1: "\<not> isl (Atoi (split_fields tab l ! 1))" and a2: "\<not> isl (Atoi (split_fields tab l ! 2))"
    using assms by (auto simp add: malformed_def)
  have n: "3 \<le> length (SplitN l tab 5)" using len by (simp add: length_SplitN_5)
  have t1: "SplitN l tab 5 ! 1 = split_fields tab l ! 1" using len by (simp add: nth_SplitN_5)
  have t2: "SplitN l tab 5 ! 2 = split_fields tab l ! 2" using len by (simp add: nth_SplitN_5)
  obtain s where s: "Atoi (split_fields tab l ! 1) = Inr s" using a1 by (cases "Atoi (split_fields tab l ! 1)") auto
  obtain e where e: "Atoi (split_fields tab l ! 2) = Inr e" using a2 by (cases "Atoi (split_fields tab l ! 2)") auto
  have i1: "index (SplitN l tab 5) 1 = Inr (split_fields tab l ! 1)" using n t1 by (simp add: index_def)
  have i2: "index (SplitN l tab 5) 2 = Inr (split_fields tab l ! 2)" using n t2 by (simp add: index_def)
  show ?thesis using i1 i2 s e
    by (simp add: line_span_def TrimSuffix_newline start_of_def end_of_def Let_def del: SplitN.simps)
qed


subsection \<open>The loop\<close>

lemma readCoverage_loop_eof:
  "newline \<notin> set t \<Longrightarrow> readCoverage_loop cov t = Inr cov"
  by (subst readCoverage_loop.simps) (simp add: ReadString_eof)

lemma readCoverage_loop_line:
  "newline \<notin> set l \<Longrightarrow>
   readCoverage_loop cov (l @ newline # rest) =
     (case line_span (l @ [newline]) of
        Inl p \<Rightarrow> Inl p
      | Inr d \<Rightarrow> readCoverage_loop (cov + d) rest)"
  by (subst readCoverage_loop.simps) (simp add: ReadString_line)

lemma unlines_Cons: "unlines (l # ls) @ t = l @ newline # (unlines ls @ t)"
  by (simp add: unlines_def)

lemma unlines_Nil: "unlines [] @ t = t"
  by (simp add: unlines_def)

lemma readCoverage_loop_wellformed:
  "\<forall>l\<in>set ls. newline \<notin> set l \<and> \<not> malformed l \<Longrightarrow>
   readCoverage_loop cov (unlines ls @ t) =
   readCoverage_loop (cov + (\<Sum>l\<leftarrow>ls. end_of l - start_of l)) t"
proof (induction ls arbitrary: cov)
  case Nil
  show ?case by (simp add: unlines_Nil)
next
  case (Cons l ls)
  have l: "newline \<notin> set l" "\<not> malformed l" using Cons.prems by simp_all
  have rest: "\<forall>l\<in>set ls. newline \<notin> set l \<and> \<not> malformed l" using Cons.prems by simp
  show ?case
    by (simp add: unlines_Cons readCoverage_loop_line[OF l(1)] line_span_wellformed[OF l(2)]
        Cons.IH[OF rest] add.assoc)
qed




lemma readCoverage_loop_ignores_tail:
  "newline \<notin> set final \<Longrightarrow> body = [] \<or> last body = newline \<Longrightarrow>
   readCoverage_loop cov (body @ final) = readCoverage_loop cov body"
proof (induction "length body" arbitrary: body cov rule: less_induct)
  case less
  show ?case
  proof (cases "body = []")
    case True
    then show ?thesis using less.prems(1) by (simp add: readCoverage_loop_eof)
  next
    case False
    then have "last body = newline" using less.prems(2) by simp
    then have "newline \<in> set body" using False last_in_set by metis
    then obtain l rest where split: "body = l @ newline # rest" and l: "newline \<notin> set l"
      using split_list_first by metis
    have shorter: "length rest < length body" using split by simp
    have rest_ok: "rest = [] \<or> last rest = newline"
      using \<open>last body = newline\<close> split by (cases "rest = []") simp_all
    have "readCoverage_loop c (rest @ final) = readCoverage_loop c rest" for c
      using less.hyps[OF shorter less.prems(1) rest_ok] .
    then show ?thesis
      by (simp add: split readCoverage_loop_line[OF l] split: sum.splits)
  qed
qed

lemma example_regions_unlines:
  "example_regions =
     unlines [''chr1'' @ [tab] @ ''0'' @ [tab] @ ''100'' @ [tab] @ ''.'' @ [tab] @ ''.'',
              ''chr1'' @ [tab] @ ''200'' @ [tab] @ ''250'' @ [tab] @ ''.'' @ [tab] @ ''.'']"
  by (simp add: example_regions_def unlines_def)


lemma region_lines:
  "newline \<notin> set region_line_a" "newline \<notin> set region_line_b"
  "\<not> malformed region_line_a" "\<not> malformed region_line_b"
  "start_of region_line_a = 0" "end_of region_line_a = 100"
  "start_of region_line_b = 200" "end_of region_line_b = 250"
  "malformed (''chr1'' @ [tab] @ ''5'')" "newline \<notin> set (''chr1'' @ [tab] @ ''5'')"
  "newline \<notin> set ''track''"
  by (simp_all add: region_line_a_def region_line_b_def malformed_def start_of_def end_of_def
      newline_def tab_def Atoi_def)

subsection \<open>The total of a region file\<close>



subsection \<open>A final line without newline\<close>

text \<open>
  C10. When the file ends in a line that no newline terminates, \<open>ReadString\<close> returns that
  line together with \<open>io.EOF\<close> and the loop breaks before looking at it: the result is
  that of the file without the line. Its interval is not added and, well-formed or not,
  it raises no error: after well-formed terminated lines the total is their sum.
\<close>

theorem unterminated_final_line_ignored:
  "(newline \<notin> set final \<and> (body = [] \<or> last body = newline) \<longrightarrow>
      readCoverage (fs(path \<mapsto> body @ final)) path = readCoverage (fs(path \<mapsto> body)) path) \<and>
   (newline \<notin> set final \<and> (\<forall>l\<in>set ls. newline \<notin> set l \<and> \<not> malformed l) \<longrightarrow>
      readCoverage (fs(path \<mapsto> unlines ls @ final)) path = Inr (\<Sum>l\<leftarrow>ls. end_of l - start_of l))"
proof (intro conjI impI)
  assume "newline \<notin> set final \<and> (body = [] \<or> last body = newline)"
  then show "readCoverage (fs(path \<mapsto> body @ final)) path = readCoverage (fs(path \<mapsto> body)) path"
    by (simp add: readCoverage_def readCoverage_loop_ignores_tail)
next
  assume a: "newline \<notin> set final \<and> (\<forall>l\<in>set ls. newline \<notin> set l \<and> \<not> malformed l)"
  then have "readCoverage_loop 0 (unlines ls @ final) =
      readCoverage_loop (0 + (\<Sum>l\<leftarrow>ls. end_of l - start_of l)) final"
    using readCoverage_loop_wellformed by blast
  then show "readCoverage (fs(path \<mapsto> unlines ls @ final)) path = Inr (\<Sum>l\<leftarrow>ls. end_of l - start_of l)"
    using a by (simp add: readCoverage_def readCoverage_loop_eof)
qed

theorem unterminated_final_line_ignored_witness:
  "readCoverage (Map.empty(''regions.bed'' \<mapsto> unlines [region_line_a] @ region_line_b)) ''regions.bed'' =
     Inr 100 \<and>
   readCoverage (Map.empty(''regions.bed'' \<mapsto> unlines [region_line_a] @ ''track'')) ''regions.bed'' =
     Inr 100 \<and>
   readCoverage (Map.empty(''regions.bed'' \<mapsto> unlines [region_line_a] @ region_line_b)) ''regions.bed'' =
   readCoverage (Map.empty(''regions.bed'' \<mapsto> unlines [region_line_a])) ''regions.bed''"
proof -
  have t: "unlines [region_line_a] = [] \<or> last (unlines [region_line_a]) = newline"
    by (simp add: unlines_def)
  have 1: "readCoverage (Map.empty(''regions.bed'' \<mapsto> unlines [region_line_a] @ region_line_b)) ''regions.bed'' =
     Inr 100"
    using unterminated_final_line_ignored[of region_line_b "unlines [region_line_a]" Map.empty
        "''regions.bed''" "[region_line_a]"] region_lines
    by simp
  have 2: "readCoverage (Map.empty(''regions.bed'' \<mapsto> unlines [region_line_a] @ ''track'')) ''regions.bed'' =
     Inr 100"
    using unterminated_final_line_ignored[of "''track''" "unlines [region_line_a]" Map.empty
        "''regions.bed''" "[region_line_a]"] region_lines
    by simp
  have 3: "readCoverage (Map.empty(''regions.bed'' \<mapsto> unlines [region_line_a] @ region_line_b)) ''regions.bed'' =
     readCoverage (Map.empty(''regions.bed'' \<mapsto> unlines [region_line_a])) ''regions.bed''"
    using unterminated_final_line_ignored[of region_line_b "unlines [region_line_a]" Map.empty
        "''regions.bed''" "[region_line_a]"] region_lines t
    by blast
  show ?thesis by (intro conjI) (rule 1, rule 2, rule 3)
qed

section \<open>Properties of the totals\<close>






end
